theory Spec2Isabelle
  imports Main
begin

section \<open>JavaScript values and arrays\<close>

text \<open>
  The values a caller can hand to \<^verbatim>\<open>useStateWithHistory\<close>. Primitives carry their value;
  an object is its reference (\<open>JObj a\<close> is the object at address \<open>a\<close>), since that is all
  the hook ever looks at. Numbers are modelled as integers plus \<open>JNaN\<close>.
\<close>

datatype jsval =
    JUndefined
  | JNull
  | JBool bool
  | JNum int
  | JNaN
  | JStr string
  | JObj nat

text \<open>
  \<^verbatim>\<open>a === b\<close>: primitives compare by value, objects by reference, and \<^verbatim>\<open>NaN\<close> is
  not equal to anything. \<^verbatim>\<open>a !== b\<close> is its negation.
\<close>

definition strict_eq :: "jsval \<Rightarrow> jsval \<Rightarrow> bool" where
  "strict_eq a b = (a = b \<and> a \<noteq> JNaN)"

definition strict_neq :: "jsval \<Rightarrow> jsval \<Rightarrow> bool" where
  "strict_neq a b = (\<not> strict_eq a b)"

text \<open>\<^verbatim>\<open>xs[i]\<close>: reading outside the array gives \<^verbatim>\<open>undefined\<close>, it does not throw.\<close>

definition js_index :: "jsval list \<Rightarrow> int \<Rightarrow> jsval" where
  "js_index xs i = (if 0 \<le> i \<and> i < int (length xs) then xs ! nat i else JUndefined)"

text \<open>
  \<^verbatim>\<open>xs.splice(start)\<close> with one argument removes everything from \<open>start\<close> to the end;
  a negative \<open>start\<close> counts from the end, and both are clamped to the array.
\<close>

definition splice_from :: "int \<Rightarrow> jsval list \<Rightarrow> jsval list" where
  "splice_from start xs =
     (let n = int (length xs);
          k = (if start < 0 then max (n + start) 0 else min start n)
      in take (nat k) xs)"

text \<open>\<^verbatim>\<open>xs.push(v)\<close> appends; \<^verbatim>\<open>xs.shift()\<close> removes index 0 and leaves an empty array empty.\<close>

definition push :: "jsval \<Rightarrow> jsval list \<Rightarrow> jsval list" where
  "push v xs = xs @ [v]"

definition shift :: "jsval list \<Rightarrow> jsval list" where
  "shift xs = (case xs of [] \<Rightarrow> [] | y # ys \<Rightarrow> ys)"

section \<open>The state of \<^verbatim>\<open>useStateWithHistory\<close>\<close>

text \<open>
  The hook keeps three cells and one parameter: the React state \<^verbatim>\<open>value\<close> (what the hook
  returns first, the visible value), \<^verbatim>\<open>historyRef.current\<close>, \<^verbatim>\<open>pointerRef.current\<close>, and
  \<^verbatim>\<open>capacity\<close>. A call of \<^verbatim>\<open>set\<close>, \<^verbatim>\<open>back\<close>, \<^verbatim>\<open>forward\<close> or \<^verbatim>\<open>go\<close> is modelled as a function
  from the state before the call to the state after the following render, so \<^verbatim>\<open>value\<close>
  inside \<^verbatim>\<open>set\<close> is the visible value at the time of the call. The capacity is the same
  at every render, and the capacity and the index given to \<^verbatim>\<open>go\<close> are integers.
\<close>

record hstate =
  value_state :: jsval
  history :: "jsval list"
  pointer :: int
  capacity :: int

text \<open>
  \<^verbatim>\<open>useStateWithHistory(defaultValue, { capacity = 10 } = {})\<close>: the option defaults to 10
  when it is absent. The body has no check of \<open>capacity\<close> and no \<^verbatim>\<open>throw\<close>.
\<close>

definition useStateWithHistory :: "jsval \<Rightarrow> int option \<Rightarrow> hstate" where
  "useStateWithHistory defaultValue opts =
     \<lparr>value_state = defaultValue,
      history = [defaultValue],
      pointer = 0,
      capacity = (case opts of None \<Rightarrow> 10 | Some c \<Rightarrow> c)\<rparr>"

text \<open>
  The argument of \<^verbatim>\<open>set\<close>: \<^verbatim>\<open>typeof v === "function" ? v(value) : v\<close>.
\<close>

datatype setarg = Plain jsval | Updater "jsval \<Rightarrow> jsval"

definition resolve :: "setarg \<Rightarrow> jsval \<Rightarrow> jsval" where
  "resolve v cur = (case v of Updater f \<Rightarrow> f cur | Plain x \<Rightarrow> x)"

text \<open>
  \<^verbatim>\<open>while (historyRef.current.length > capacity) historyRef.current.shift()\<close>.
  On an empty array \<^verbatim>\<open>shift\<close> changes nothing, so with a negative capacity the loop
  never ends: the result is \<open>None\<close> then.
\<close>

partial_function (option) shift_while :: "int \<Rightarrow> jsval list \<Rightarrow> jsval list option" where
  "shift_while cap h = (if int (length h) > cap then shift_while cap (shift h) else Some h)"

definition set_state :: "setarg \<Rightarrow> hstate \<Rightarrow> hstate option" where
  "set_state v s =
     (let resolvedValue = resolve v (value_state s) in
      if strict_neq (js_index (history s) (pointer s)) resolvedValue then
        (let h1 = (if pointer s < int (length (history s)) - 1
                   then splice_from (pointer s + 1) (history s) else history s);
             h2 = push resolvedValue h1
         in case shift_while (capacity s) h2 of
              None \<Rightarrow> None
            | Some h3 \<Rightarrow>
                Some (s\<lparr>value_state := resolvedValue, history := h3,
                        pointer := int (length h3) - 1\<rparr>))
      else Some (s\<lparr>value_state := resolvedValue\<rparr>))"

definition back_state :: "hstate \<Rightarrow> hstate" where
  "back_state s =
     (if pointer s \<le> 0 then s
      else s\<lparr>value_state := js_index (history s) (pointer s - 1), pointer := pointer s - 1\<rparr>)"

definition forward :: "hstate \<Rightarrow> hstate" where
  "forward s =
     (if pointer s \<ge> int (length (history s)) - 1 then s
      else s\<lparr>value_state := js_index (history s) (pointer s + 1), pointer := pointer s + 1\<rparr>)"

definition go :: "int \<Rightarrow> hstate \<Rightarrow> hstate" where
  "go index s =
     (if index < 0 \<or> index > int (length (history s)) - 1 then s
      else s\<lparr>value_state := js_index (history s) index, pointer := index\<rparr>)"

section \<open>Sequences of calls\<close>

datatype operation = Commit setarg | Back | Forward | GoTo int

fun step :: "operation \<Rightarrow> hstate \<Rightarrow> hstate option" where
  "step (Commit v) s = set_state v s"
| "step Back s = Some (back_state s)"
| "step Forward s = Some (forward s)"
| "step (GoTo i) s = Some (go i s)"

fun run :: "operation list \<Rightarrow> hstate \<Rightarrow> hstate option" where
  "run [] s = Some s"
| "run (x # xs) s = (case step x s of None \<Rightarrow> None | Some s' \<Rightarrow> run xs s')"

section \<open>The container as the specification words it\<close>

text \<open>
  Two notions that the specification uses and the source does not have, written from the
  specification's words so that the source can be compared with them.

  Construction as specified: it fails with \<open>InvalidConfiguration\<close> when the capacity is
  below 1, and returns the one-entry container otherwise.
\<close>

datatype error = InvalidConfiguration

definition create_spec :: "jsval \<Rightarrow> int \<Rightarrow> error + hstate" where
  "create_spec initialValue cap =
     (if cap < 1 then Inl InvalidConfiguration
      else Inr \<lparr>value_state = initialValue, history = [initialValue],
                 pointer = 0, capacity = cap\<rparr>)"

text \<open>
  Value equality as opposed to identity: given the properties stored at each address,
  two objects are equal when their properties are (one level deep), whatever their
  addresses; primitives are equal when they are the same value.
\<close>

type_synonym heap = "nat \<rightharpoonup> (string \<times> jsval) list"

fun value_eq :: "heap \<Rightarrow> jsval \<Rightarrow> jsval \<Rightarrow> bool" where
  "value_eq hp (JObj a) (JObj b) = (hp a = hp b)"
| "value_eq hp x y = (x = y)"

section \<open>Auxiliary notions for the proofs\<close>

text \<open>
  The array of \<^verbatim>\<open>set\<close> just before its \<^verbatim>\<open>while\<close> loop: the forward branch cut off
  (when the pointer is not at the last index) and the resolved value pushed.
\<close>

definition appended :: "setarg \<Rightarrow> hstate \<Rightarrow> jsval list" where
  "appended v s =
     push (resolve v (value_state s))
       (if pointer s < int (length (history s)) - 1
        then splice_from (pointer s + 1) (history s) else history s)"

text \<open>The invariant of the container: the pointer is an index of the log, and the log fits
  the capacity.\<close>

definition valid :: "hstate \<Rightarrow> bool" where
  "valid s = (0 \<le> pointer s \<and> pointer s < int (length (history s)) \<and>
              int (length (history s)) \<le> capacity s)"

text \<open>
  The visible value is the log entry at the pointer, or the log is empty (which only a
  capacity below 1 can bring about) with the pointer at \<open>- 1\<close>.
\<close>

definition settled :: "hstate \<Rightarrow> bool" where
  "settled s = (value_state s = js_index (history s) (pointer s) \<or>
                (history s = [] \<and> pointer s = - 1))"

section \<open>The eviction loop\<close>

lemma shift_length: "length (shift xs) = length xs - 1"
  by (simp add: shift_def split: list.splits)

lemma shift_drop: "shift xs = drop 1 xs"
  by (simp add: shift_def drop_Suc split: list.splits)

lemma shift_while_nonneg:
  "0 \<le> cap \<Longrightarrow> shift_while cap xs = Some (drop (length xs - nat cap) xs)"
proof (induction "length xs" arbitrary: xs rule: less_induct)
  case less
  show ?case
  proof (cases "int (length xs) > cap")
    case False
    then show ?thesis by (subst shift_while.simps) simp
  next
    case True
    with less.prems have ne: "xs \<noteq> []" by auto
    then have lt: "length (shift xs) < length xs" by (simp add: shift_length)
    have "shift_while cap xs = shift_while cap (shift xs)"
      using True by (subst shift_while.simps) simp
    also have "\<dots> = Some (drop (length (shift xs) - nat cap) (shift xs))"
      using less.hyps [OF lt less.prems] .
    also have "drop (length (shift xs) - nat cap) (shift xs) = drop (length xs - nat cap) xs"
      using True less.prems ne by (cases xs) (simp_all add: shift_def Suc_diff_le nat_le_iff)
    finally show ?thesis .
  qed
qed

text \<open>Whenever the loop returns, the result fits the capacity and is the array with some
  of its first entries removed. With a negative capacity it never returns.\<close>

lemma shift_while_Some:
  assumes "shift_while cap xs = Some ys"
  shows "int (length ys) \<le> cap \<and> (\<exists>k. ys = drop k xs)"
proof (rule shift_while.raw_induct
    [where P = "\<lambda>c h y. int (length y) \<le> c \<and> (\<exists>k. y = drop k h)", OF _ assms])
  fix f :: "int \<Rightarrow> jsval list \<Rightarrow> jsval list option" and c h y
  assume IH: "\<And>h b y. f h b = Some y \<Longrightarrow> int (length y) \<le> h \<and> (\<exists>k. y = drop k b)"
    and eq: "(if int (length h) > c then f c (shift h) else Some h) = Some y"
  show "int (length y) \<le> c \<and> (\<exists>k. y = drop k h)"
  proof (cases "int (length h) > c")
    case True
    with eq have "f c (shift h) = Some y" by simp
    from IH [OF this] obtain k where "int (length y) \<le> c" "y = drop k (drop 1 h)"
      by (auto simp: shift_drop)
    then show ?thesis by (metis drop_drop)
  next
    case False
    with eq have "y = h" by simp
    with False show ?thesis by (auto intro: exI [of _ 0])
  qed
qed

lemma shift_while_neg: "cap < 0 \<Longrightarrow> shift_while cap xs = None"
  using shift_while_Some [of cap xs] by (cases "shift_while cap xs") auto

section \<open>What one call of \<^verbatim>\<open>set\<close> does\<close>

lemma set_state_eq:
  "strict_eq (js_index (history s) (pointer s)) (resolve v (value_state s)) \<Longrightarrow>
   set_state v s = Some (s\<lparr>value_state := resolve v (value_state s)\<rparr>)"
  by (simp add: set_state_def strict_neq_def)

lemma set_state_neq:
  assumes "strict_neq (js_index (history s) (pointer s)) (resolve v (value_state s))"
    and "0 \<le> capacity s"
  shows "set_state v s =
     Some (s\<lparr>value_state := resolve v (value_state s),
             history := drop (length (appended v s) - nat (capacity s)) (appended v s),
             pointer := int (length (drop (length (appended v s) - nat (capacity s)) (appended v s))) - 1\<rparr>)"
  using assms by (simp add: set_state_def appended_def shift_while_nonneg Let_def)

lemma appended_last: "appended v s \<noteq> [] \<and> last (appended v s) = resolve v (value_state s)"
  by (simp add: appended_def push_def)

lemma js_index_last: "xs \<noteq> [] \<Longrightarrow> js_index xs (int (length xs) - 1) = last xs"
  by (simp add: js_index_def last_conv_nth nat_diff_distrib')

lemma set_state_valid:
  assumes "valid s" and "1 \<le> capacity s"
  shows "\<exists>s'. set_state v s = Some s' \<and> valid s' \<and> capacity s' = capacity s"
proof (cases "strict_neq (js_index (history s) (pointer s)) (resolve v (value_state s))")
  case False
  then show ?thesis using assms by (simp add: set_state_eq strict_neq_def valid_def)
next
  case True
  have "appended v s \<noteq> []" by (simp add: appended_last)
  then show ?thesis
    using assms True by (auto simp: set_state_neq valid_def)
qed

lemma set_state_changed:
  assumes "set_state v s = Some s'" and "history s' \<noteq> history s"
  shows "strict_neq (js_index (history s) (pointer s)) (resolve v (value_state s)) \<and>
     pointer s' = int (length (history s')) - 1"
proof (cases "strict_neq (js_index (history s) (pointer s)) (resolve v (value_state s))")
  case False
  with assms show ?thesis by (auto simp: set_state_eq strict_neq_def)
next
  case True
  with assms(1) show ?thesis
    by (auto simp: set_state_def Let_def split: option.splits)
qed

lemma set_state_returns: "0 \<le> capacity s \<Longrightarrow> \<exists>s'. set_state v s = Some s'"
  by (cases "strict_neq (js_index (history s) (pointer s)) (resolve v (value_state s))")
    (simp_all add: set_state_neq set_state_eq strict_neq_def)

lemma drop_appended:
  assumes "1 \<le> cap"
  shows "drop (length (appended v s) - nat cap) (appended v s) \<noteq> [] \<and>
     last (drop (length (appended v s) - nat cap) (appended v s)) = resolve v (value_state s)"
proof -
  have ne: "appended v s \<noteq> []" and l: "last (appended v s) = resolve v (value_state s)"
    by (simp_all add: appended_last)
  from ne have "0 < length (appended v s)" by simp
  with assms have "length (appended v s) - nat cap < length (appended v s)" by linarith
  then show ?thesis using l by simp
qed

section \<open>The invariant along a sequence of calls\<close>

lemma nav_valid:
  "valid s \<Longrightarrow> valid (back_state s)" "valid s \<Longrightarrow> valid (forward s)" "valid s \<Longrightarrow> valid (go i s)"
  by (auto simp: valid_def back_state_def forward_def go_def)

lemma nav_capacity:
  "capacity (back_state s) = capacity s" "capacity (forward s) = capacity s"
  "capacity (go i s) = capacity s"
  by (auto simp: back_state_def forward_def go_def)

lemma step_valid:
  assumes "valid s" and "1 \<le> capacity s"
  shows "\<exists>s'. step x s = Some s' \<and> valid s' \<and> capacity s' = capacity s"
  using assms by (cases x) (simp_all add: set_state_valid nav_valid nav_capacity)

lemma run_valid:
  assumes "valid s" and "1 \<le> capacity s"
  shows "\<exists>s'. run xs s = Some s' \<and> valid s' \<and> capacity s' = capacity s"
  using assms
proof (induction xs arbitrary: s)
  case Nil
  then show ?case by simp
next
  case (Cons x xs)
  from step_valid [OF Cons.prems, of x] obtain s1
    where s1: "step x s = Some s1" "valid s1" "capacity s1 = capacity s" by blast
  with Cons.IH [of s1] Cons.prems show ?case by simp
qed

lemma init_valid: "1 \<le> capacity (useStateWithHistory v opts) \<Longrightarrow> valid (useStateWithHistory v opts)"
  by (simp add: valid_def useStateWithHistory_def)

section \<open>The visible value and the log\<close>

lemma init_settled: "settled (useStateWithHistory d opts)"
  by (simp add: settled_def useStateWithHistory_def js_index_def)

lemma set_state_settled:
  assumes "set_state v s = Some s'"
  shows "settled s'"
proof (cases "strict_neq (js_index (history s) (pointer s)) (resolve v (value_state s))")
  case False
  with assms show ?thesis
    by (auto simp: set_state_eq strict_neq_def strict_eq_def settled_def)
next
  case True
  with assms obtain h3 where h3: "shift_while (capacity s) (appended v s) = Some h3"
    and s': "s' = s\<lparr>value_state := resolve v (value_state s), history := h3,
        pointer := int (length h3) - 1\<rparr>"
    by (auto simp: set_state_def appended_def Let_def split: option.splits)
  from shift_while_Some [OF h3] obtain k where k: "h3 = drop k (appended v s)" by blast
  show ?thesis
  proof (cases "h3 = []")
    case True
    with s' show ?thesis by (simp add: settled_def)
  next
    case False
    with k have "last h3 = resolve v (value_state s)" by (simp add: appended_last)
    with False s' show ?thesis by (simp add: settled_def js_index_last)
  qed
qed

lemma nav_settled:
  "settled s \<Longrightarrow> settled (back_state s)" "settled s \<Longrightarrow> settled (forward s)"
  "settled s \<Longrightarrow> settled (go i s)"
  by (auto simp: settled_def back_state_def forward_def go_def)

lemma step_settled: "settled s \<Longrightarrow> step x s = Some s' \<Longrightarrow> settled s'"
  by (cases x) (auto simp: set_state_settled nav_settled)

lemma run_settled: "settled s \<Longrightarrow> run xs s = Some s' \<Longrightarrow> settled s'"
proof (induction xs arbitrary: s)
  case Nil
  then show ?case by simp
next
  case (Cons x xs)
  then show ?case by (auto split: option.splits dest: step_settled)
qed

text \<open>Navigation by \<open>back\<close> and \<open>forward\<close> alone.\<close>

lemma moves_read_log:
  assumes "set navs \<subseteq> {Back, Forward}"
    and "value_state s = js_index (history s) (pointer s)"
  shows "\<exists>s'. run navs s = Some s' \<and> history s' = history s \<and>
     value_state s' = js_index (history s') (pointer s')"
  using assms
proof (induction navs arbitrary: s)
  case Nil
  then show ?case by simp
next
  case (Cons x navs)
  from Cons.prems have x: "x = Back \<or> x = Forward" and rest: "set navs \<subseteq> {Back, Forward}"
    by auto
  from x obtain s1 where s1: "step x s = Some s1" "history s1 = history s"
    "value_state s1 = js_index (history s1) (pointer s1)"
    using Cons.prems(2) by (auto simp: back_state_def forward_def)
  from Cons.IH [OF rest s1(3)] s1 show ?case by simp
qed

lemma moves_on_empty_log:
  assumes "set navs \<subseteq> {Back, Forward}" and "history s = []" and "pointer s = - 1"
  shows "run navs s = Some s"
  using assms
proof (induction navs)
  case Nil
  then show ?case by simp
next
  case (Cons x navs)
  then have "step x s = Some s" by (auto simp: back_state_def forward_def)
  with Cons show ?case by simp
qed

section \<open>Evaluating concrete call sequences\<close>

lemmas eval_simps =
  useStateWithHistory_def set_state_def strict_neq_def strict_eq_def js_index_def resolve_def
  push_def splice_from_def shift_while_nonneg back_state_def forward_def go_def Let_def

section \<open>Construction\<close>

text \<open>
  Claim C2, as the specification has it: construction fails with \<open>InvalidConfiguration\<close>
  exactly when the capacity is below 1. The hook has no such check: at capacity 0 the
  specified construction is an error while \<^verbatim>\<open>useStateWithHistory\<close> returns a container.
\<close>

theorem construction_capacity_zero_counterexample:
  "create_spec (JNum 0) 0 = Inl InvalidConfiguration \<and>
   useStateWithHistory (JNum 0) (Some 0) =
     \<lparr>value_state = JNum 0, history = [JNum 0], pointer = 0, capacity = 0\<rparr> \<and>
   Inr (useStateWithHistory (JNum 0) (Some 0)) \<noteq> create_spec (JNum 0) 0"
  by (simp add: useStateWithHistory_def create_spec_def)

text \<open>
  Claim C2, amended: construction never fails. For every capacity, also one below 1,
  \<^verbatim>\<open>useStateWithHistory\<close> returns the container with log \<open>[initialValue]\<close> and cursor 0;
  the specified construction is an error below 1 and returns the same container from 1 on.
\<close>

theorem construction_never_fails:
  "useStateWithHistory v (Some cap) =
     \<lparr>value_state = v, history = [v], pointer = 0, capacity = cap\<rparr> \<and>
   useStateWithHistory v None =
     \<lparr>value_state = v, history = [v], pointer = 0, capacity = 10\<rparr> \<and>
   create_spec v cap =
     (if cap < 1 then Inl InvalidConfiguration else Inr (useStateWithHistory v (Some cap)))"
  by (simp add: useStateWithHistory_def create_spec_def)

text \<open>
  What a capacity below 1 leads to in the hook: with capacity 0 the first commit of a new
  value leaves an empty log and the pointer at \<open>- 1\<close>; with a negative capacity the same
  commit never returns.
\<close>

lemma commit_capacity_zero:
  "set_state (Plain (JNum 1)) (useStateWithHistory (JNum 0) (Some 0)) =
     Some \<lparr>value_state = JNum 1, history = [], pointer = - 1, capacity = 0\<rparr>"
  by (simp add: eval_simps)

lemma commit_capacity_negative:
  "set_state (Plain (JNum 1)) (useStateWithHistory (JNum 0) (Some (- 1))) = None"
  by (simp add: useStateWithHistory_def set_state_def strict_neq_def strict_eq_def js_index_def
      resolve_def shift_while_neg Let_def)

section \<open>Commit\<close>

text \<open>
  Claim C1, as the specification has it: a commit of a value that equals the entry at the
  cursor under value equality (not identity) leaves the log and the cursor alone. The hook
  compares with \<^verbatim>\<open>!==\<close>: an object with the same properties at another address is
  value-equal to the entry, and its commit appends it and moves the cursor.
\<close>

theorem duplicate_commit_value_eq_counterexample:
  "value_eq [0 \<mapsto> [(''a'', JNum 1)], 1 \<mapsto> [(''a'', JNum 1)]]
     (js_index (history (useStateWithHistory (JObj 0) None))
        (pointer (useStateWithHistory (JObj 0) None))) (JObj 1) \<and>
   set_state (Plain (JObj 1)) (useStateWithHistory (JObj 0) None) =
     Some \<lparr>value_state = JObj 1, history = [JObj 0, JObj 1], pointer = 1, capacity = 10\<rparr>"
  by (simp add: useStateWithHistory_def js_index_def set_state_def strict_neq_def strict_eq_def
      resolve_def push_def shift_while_nonneg Let_def)

text \<open>
  Claim C1, amended: when the resolved value is strictly equal (\<^verbatim>\<open>===\<close>: the same
  primitive value, or the same object reference) to the entry at the cursor, \<^verbatim>\<open>set\<close>
  returns, the log, the cursor and the capacity are unchanged, and the visible value is
  the resolved value.
\<close>

theorem duplicate_commit_strict:
  "strict_eq (js_index (history s) (pointer s)) (resolve v (value_state s)) \<Longrightarrow>
   set_state v s = Some (s\<lparr>value_state := resolve v (value_state s)\<rparr>)"
  by (rule set_state_eq)

theorem duplicate_commit_strict_witness:
  "strict_eq (js_index (history (useStateWithHistory (JNum 4) None))
       (pointer (useStateWithHistory (JNum 4) None)))
     (resolve (Plain (JNum 4)) (value_state (useStateWithHistory (JNum 4) None))) \<and>
   set_state (Plain (JNum 4)) (useStateWithHistory (JNum 4) None) =
     Some (useStateWithHistory (JNum 4) None)"
proof -
  have h: "strict_eq (js_index (history (useStateWithHistory (JNum 4) None))
       (pointer (useStateWithHistory (JNum 4) None)))
     (resolve (Plain (JNum 4)) (value_state (useStateWithHistory (JNum 4) None)))"
    by (simp add: strict_eq_def js_index_def resolve_def useStateWithHistory_def)
  from duplicate_commit_strict [OF h] h show ?thesis
    by (simp add: resolve_def useStateWithHistory_def)
qed

text \<open>
  Claim C6, as the specification has it: in every container state, after a commit that
  changes the log the cursor is the last index and the committed value is the entry
  there. The hook also builds containers of capacity 0, and there the commit of 1 on the
  log \<open>[0]\<close> changes the log to the empty one with the pointer at \<open>- 1\<close>: the committed
  value is not an entry of the log.
\<close>

theorem post_commit_entry_counterexample:
  "set_state (Plain (JNum 1)) (useStateWithHistory (JNum 0) (Some 0)) =
     Some \<lparr>value_state = JNum 1, history = [], pointer = - 1, capacity = 0\<rparr> \<and>
   history \<lparr>value_state = JNum 1, history = [], pointer = - 1, capacity = 0\<rparr> \<noteq>
     history (useStateWithHistory (JNum 0) (Some 0)) \<and>
   js_index (history \<lparr>value_state = JNum 1, history = [], pointer = - 1, capacity = 0\<rparr>)
     (pointer \<lparr>value_state = JNum 1, history = [], pointer = - 1, capacity = 0\<rparr>) \<noteq> JNum 1"
  by (simp add: eval_simps)

text \<open>
  Claim C6, amended: in every container state, after a commit that changes the log the
  cursor is the last index (the commit returns whenever the capacity is not negative);
  and when the capacity is at least 1, the commit returns, the log changes only on the
  branch where the resolved value is not strictly equal to the entry at the cursor, and
  on that branch the entry at the final index is the committed value, which is also the
  visible value.
\<close>

theorem post_commit_position:
  "(\<forall>s'. set_state v s = Some s' \<and> history s' \<noteq> history s \<longrightarrow>
      pointer s' = int (length (history s')) - 1) \<and>
   (0 \<le> capacity s \<longrightarrow> (\<exists>s'. set_state v s = Some s')) \<and>
   (1 \<le> capacity s \<longrightarrow>
      (\<exists>s'. set_state v s = Some s' \<and>
         (history s' \<noteq> history s \<longrightarrow>
            strict_neq (js_index (history s) (pointer s)) (resolve v (value_state s))) \<and>
         (strict_neq (js_index (history s) (pointer s)) (resolve v (value_state s)) \<longrightarrow>
            pointer s' = int (length (history s')) - 1 \<and>
            js_index (history s') (pointer s') = resolve v (value_state s) \<and>
            value_state s' = resolve v (value_state s))))"
proof (intro conjI allI impI)
  fix s' assume "set_state v s = Some s' \<and> history s' \<noteq> history s"
  then show "pointer s' = int (length (history s')) - 1"
    using set_state_changed [of v s s'] by simp
next
  assume "0 \<le> capacity s"
  then show "\<exists>s'. set_state v s = Some s'" by (rule set_state_returns)
next
  assume c1: "1 \<le> capacity s"
  show "\<exists>s'. set_state v s = Some s' \<and>
         (history s' \<noteq> history s \<longrightarrow>
            strict_neq (js_index (history s) (pointer s)) (resolve v (value_state s))) \<and>
         (strict_neq (js_index (history s) (pointer s)) (resolve v (value_state s)) \<longrightarrow>
            pointer s' = int (length (history s')) - 1 \<and>
            js_index (history s') (pointer s') = resolve v (value_state s) \<and>
            value_state s' = resolve v (value_state s))"
  proof (cases "strict_neq (js_index (history s) (pointer s)) (resolve v (value_state s))")
    case False
    then show ?thesis by (simp add: set_state_eq strict_neq_def)
  next
    case True
    from c1 have c: "0 \<le> capacity s" by simp
    show ?thesis
      using True drop_appended [OF c1, of v s]
      by (simp add: set_state_neq [OF True c] js_index_last del: length_drop)
  qed
qed

theorem post_commit_position_witness:
  "1 \<le> capacity (useStateWithHistory (JNum 0) (Some 3)) \<and>
   set_state (Plain (JNum 1)) (useStateWithHistory (JNum 0) (Some 3)) =
     Some \<lparr>value_state = JNum 1, history = [JNum 0, JNum 1], pointer = 1, capacity = 3\<rparr> \<and>
   history \<lparr>value_state = JNum 1, history = [JNum 0, JNum 1], pointer = 1, capacity = 3\<rparr> \<noteq>
     history (useStateWithHistory (JNum 0) (Some 3)) \<and>
   strict_neq (js_index (history (useStateWithHistory (JNum 0) (Some 3)))
       (pointer (useStateWithHistory (JNum 0) (Some 3))))
     (resolve (Plain (JNum 1)) (value_state (useStateWithHistory (JNum 0) (Some 3)))) \<and>
   pointer \<lparr>value_state = JNum 1, history = [JNum 0, JNum 1], pointer = 1, capacity = 3\<rparr> =
     int (length (history \<lparr>value_state = JNum 1, history = [JNum 0, JNum 1], pointer = 1,
       capacity = 3\<rparr>)) - 1 \<and>
   js_index (history \<lparr>value_state = JNum 1, history = [JNum 0, JNum 1], pointer = 1,
       capacity = 3\<rparr>)
     (pointer \<lparr>value_state = JNum 1, history = [JNum 0, JNum 1], pointer = 1, capacity = 3\<rparr>) =
     JNum 1"
proof -
  have h: "1 \<le> capacity (useStateWithHistory (JNum 0) (Some 3))"
    by (simp add: useStateWithHistory_def)
  have e: "set_state (Plain (JNum 1)) (useStateWithHistory (JNum 0) (Some 3)) =
    Some \<lparr>value_state = JNum 1, history = [JNum 0, JNum 1], pointer = 1, capacity = 3\<rparr>"
    by (simp add: eval_simps)
  from post_commit_position [of "Plain (JNum 1)" "useStateWithHistory (JNum 0) (Some 3)"] h e
  show ?thesis by (simp add: eval_simps)
qed

text \<open>
  Claim C7: with log \<open>[a, b, c, d]\<close>, cursor 1 and a committed value that is not strictly
  equal to \<open>b\<close>, the commit yields log \<open>[a, b, x]\<close> with cursor 2: \<open>c\<close> and \<open>d\<close> are
  discarded before \<open>x\<close> is appended. The capacity has to hold the three entries; every
  container whose log has these four entries and respects its capacity has room for them.
\<close>

theorem branch_truncation:
  assumes "history s = [a, b, c, d]" and "pointer s = 1"
    and "strict_neq b (resolve v (value_state s))" and "3 \<le> capacity s"
  shows "set_state v s =
     Some (s\<lparr>value_state := resolve v (value_state s),
             history := [a, b, resolve v (value_state s)], pointer := 2\<rparr>)"
  using assms
  by (simp add: set_state_def js_index_def splice_from_def push_def shift_while_nonneg Let_def)

theorem branch_truncation_witness:
  "strict_neq (JStr ''b'') (JStr ''x'') \<and>
   set_state (Plain (JStr ''x''))
     \<lparr>value_state = JStr ''b'', history = [JStr ''a'', JStr ''b'', JStr ''c'', JStr ''d''],
      pointer = 1, capacity = 4\<rparr> =
   Some \<lparr>value_state = JStr ''x'', history = [JStr ''a'', JStr ''b'', JStr ''x''],
      pointer = 2, capacity = 4\<rparr>"
  using branch_truncation [of "\<lparr>value_state = JStr ''b'',
      history = [JStr ''a'', JStr ''b'', JStr ''c'', JStr ''d''], pointer = 1, capacity = 4\<rparr>"
      "JStr ''a''" "JStr ''b''" "JStr ''c''" "JStr ''d''" "Plain (JStr ''x'')"]
  by (simp add: strict_neq_def strict_eq_def resolve_def)

section \<open>Navigation\<close>

text \<open>
  Claim C8: \<^verbatim>\<open>back\<close> at a cursor not above 0, \<^verbatim>\<open>forward\<close> at a cursor not below the last
  index and \<^verbatim>\<open>go\<close> to an index below 0 or above the last index return the state they
  were given (log, cursor and visible value unchanged; the functions have no failing
  branch); \<^verbatim>\<open>go\<close> to an index \<open>k\<close> of the log sets the cursor to \<open>k\<close> and the visible
  value to the log's entry \<open>k\<close>.
\<close>

theorem navigation_bounds:
  "(pointer s \<le> 0 \<longrightarrow> back_state s = s) \<and>
   (pointer s \<ge> int (length (history s)) - 1 \<longrightarrow> forward s = s) \<and>
   (i < 0 \<or> i > int (length (history s)) - 1 \<longrightarrow> go i s = s) \<and>
   (0 \<le> k \<and> k \<le> int (length (history s)) - 1 \<longrightarrow>
      pointer (go k s) = k \<and> value_state (go k s) = history s ! nat k \<and>
      history (go k s) = history s)"
  by (auto simp: back_state_def forward_def go_def js_index_def)

theorem navigation_bounds_witness:
  "back_state (useStateWithHistory (JStr ''a'') None) = useStateWithHistory (JStr ''a'') None \<and>
   forward (useStateWithHistory (JStr ''a'') None) = useStateWithHistory (JStr ''a'') None \<and>
   go (- 1) (useStateWithHistory (JStr ''a'') None) = useStateWithHistory (JStr ''a'') None \<and>
   go 1 (useStateWithHistory (JStr ''a'') None) = useStateWithHistory (JStr ''a'') None \<and>
   pointer (go 1 \<lparr>value_state = JNum 5, history = [JNum 5, JNum 6, JNum 7], pointer = 0,
     capacity = 10\<rparr>) = 1 \<and>
   value_state (go 1 \<lparr>value_state = JNum 5, history = [JNum 5, JNum 6, JNum 7], pointer = 0,
     capacity = 10\<rparr>) = JNum 6"
  using navigation_bounds [of "useStateWithHistory (JStr ''a'') None" "- 1" 0]
    navigation_bounds [of "useStateWithHistory (JStr ''a'') None" 1 0]
    navigation_bounds [of "\<lparr>value_state = JNum 5, history = [JNum 5, JNum 6, JNum 7],
      pointer = 0, capacity = 10\<rparr>" 0 1]
  by (simp add: useStateWithHistory_def)

text \<open>
  Claim C10: \<^verbatim>\<open>back\<close>, \<^verbatim>\<open>forward\<close> and \<^verbatim>\<open>go\<close> leave the log (contents and length) and
  the capacity as they were; the cursor and the visible value are the only cells they
  write.
\<close>

theorem navigation_keeps_log:
  "history (back_state s) = history s \<and> capacity (back_state s) = capacity s \<and>
   history (forward s) = history s \<and> capacity (forward s) = capacity s \<and>
   history (go i s) = history s \<and> capacity (go i s) = capacity s \<and>
   back_state s = s\<lparr>value_state := value_state (back_state s), pointer := pointer (back_state s)\<rparr> \<and>
   forward s = s\<lparr>value_state := value_state (forward s), pointer := pointer (forward s)\<rparr> \<and>
   go i s = s\<lparr>value_state := value_state (go i s), pointer := pointer (go i s)\<rparr>"
  by (simp add: back_state_def forward_def go_def)

text \<open>
  Claim C9: in every state that some sequence of calls reaches from a newly created
  container (of any capacity), every sequence of \<^verbatim>\<open>back\<close> and \<^verbatim>\<open>forward\<close> calls returns,
  and when it brings the cursor back to the index it started from, the visible value is
  the one it started from.
\<close>

theorem round_trip:
  assumes "run pre (useStateWithHistory d opts) = Some s"
    and "set navs \<subseteq> {Back, Forward}"
  shows "\<exists>s'. run navs s = Some s' \<and>
     (pointer s' = pointer s \<longrightarrow> value_state s' = value_state s)"
proof -
  from run_settled [OF init_settled assms(1)] have "settled s" .
  then consider (log) "value_state s = js_index (history s) (pointer s)"
    | (empty) "history s = []" "pointer s = - 1"
    by (auto simp: settled_def)
  then show ?thesis
  proof cases
    case log
    from moves_read_log [OF assms(2) log] obtain s' where "run navs s = Some s'"
      "history s' = history s" "value_state s' = js_index (history s') (pointer s')" by blast
    with log show ?thesis by simp
  next
    case empty
    from moves_on_empty_log [OF assms(2) empty] show ?thesis by simp
  qed
qed

theorem round_trip_witness:
  "run [Commit (Plain (JNum 1)), Commit (Plain (JNum 2))] (useStateWithHistory (JNum 0) None) =
     Some \<lparr>value_state = JNum 2, history = [JNum 0, JNum 1, JNum 2], pointer = 2, capacity = 10\<rparr> \<and>
   set [Back, Back, Forward, Back, Forward, Forward] \<subseteq> {Back, Forward} \<and>
   run [Back, Back, Forward, Back, Forward, Forward]
     \<lparr>value_state = JNum 2, history = [JNum 0, JNum 1, JNum 2], pointer = 2, capacity = 10\<rparr> =
     Some \<lparr>value_state = JNum 2, history = [JNum 0, JNum 1, JNum 2], pointer = 2, capacity = 10\<rparr>"
proof -
  have e: "run [Commit (Plain (JNum 1)), Commit (Plain (JNum 2))]
      (useStateWithHistory (JNum 0) None) =
    Some \<lparr>value_state = JNum 2, history = [JNum 0, JNum 1, JNum 2], pointer = 2, capacity = 10\<rparr>"
    by (simp add: eval_simps)
  have n: "set [Back, Back, Forward, Back, Forward, Forward] \<subseteq> {Back, Forward}" by simp
  have r: "run [Back, Back, Forward, Back, Forward, Forward]
     \<lparr>value_state = JNum 2, history = [JNum 0, JNum 1, JNum 2], pointer = 2, capacity = 10\<rparr> =
     Some \<lparr>value_state = JNum 2, history = [JNum 0, JNum 1, JNum 2], pointer = 2, capacity = 10\<rparr>"
    by (simp add: eval_simps)
  from round_trip [OF e n] e n r show ?thesis by simp
qed

section \<open>Reachable states\<close>

text \<open>
  Claim C4: from a container created with capacity at least 1, every sequence of
  \<^verbatim>\<open>set\<close>, \<^verbatim>\<open>back\<close>, \<^verbatim>\<open>forward\<close> and \<^verbatim>\<open>go\<close> calls returns, and the log is no longer than
  the capacity afterwards (the sequence is arbitrary, so this holds after each of its
  calls). A further commit in such a state returns with the log within the capacity, and
  when it changes the log, the new log is the truncated log with the value appended, less
  the entries at its front that exceed the capacity: eviction takes the oldest entries,
  and the last entry is the value just committed.
\<close>

theorem capacity_invariant:
  assumes "1 \<le> capacity (useStateWithHistory d opts)"
  shows "\<exists>s. run ops (useStateWithHistory d opts) = Some s \<and>
     capacity s = capacity (useStateWithHistory d opts) \<and>
     int (length (history s)) \<le> capacity s \<and>
     (\<forall>v. \<exists>s'. set_state v s = Some s' \<and>
        int (length (history s')) \<le> capacity s \<and>
        (strict_neq (js_index (history s) (pointer s)) (resolve v (value_state s)) \<longrightarrow>
           history s' = drop (length (appended v s) - nat (capacity s)) (appended v s) \<and>
           last (history s') = resolve v (value_state s)))"
proof -
  from run_valid [OF init_valid [OF assms] assms, of ops] obtain s
    where s: "run ops (useStateWithHistory d opts) = Some s" "valid s"
      "capacity s = capacity (useStateWithHistory d opts)" by blast
  with assms have c1: "1 \<le> capacity s" and c0: "0 \<le> capacity s" by simp_all
  have "\<exists>s'. set_state v s = Some s' \<and>
        int (length (history s')) \<le> capacity s \<and>
        (strict_neq (js_index (history s) (pointer s)) (resolve v (value_state s)) \<longrightarrow>
           history s' = drop (length (appended v s) - nat (capacity s)) (appended v s) \<and>
           last (history s') = resolve v (value_state s))" for v
  proof (cases "strict_neq (js_index (history s) (pointer s)) (resolve v (value_state s))")
    case False
    with s(2) show ?thesis by (simp add: set_state_eq strict_neq_def valid_def)
  next
    case True
    show ?thesis
      using c0 drop_appended [OF c1, of v s] by (simp add: set_state_neq [OF True c0])
  qed
  with s show ?thesis unfolding valid_def by blast
qed

theorem capacity_invariant_witness:
  "1 \<le> capacity (useStateWithHistory (JStr ''a'') (Some 3)) \<and>
   (\<exists>s. run [Commit (Plain (JStr ''b'')), Commit (Plain (JStr ''c''))]
          (useStateWithHistory (JStr ''a'') (Some 3)) = Some s \<and>
        history s = [JStr ''a'', JStr ''b'', JStr ''c''] \<and>
        int (length (history s)) \<le> capacity s \<and>
        (\<exists>s'. set_state (Plain (JStr ''d'')) s = Some s' \<and>
           history s' = [JStr ''b'', JStr ''c'', JStr ''d''] \<and>
           int (length (history s')) \<le> capacity s))"
proof -
  have h: "1 \<le> capacity (useStateWithHistory (JStr ''a'') (Some 3))"
    by (simp add: useStateWithHistory_def)
  have e: "run [Commit (Plain (JStr ''b'')), Commit (Plain (JStr ''c''))]
      (useStateWithHistory (JStr ''a'') (Some 3)) =
    Some \<lparr>value_state = JStr ''c'', history = [JStr ''a'', JStr ''b'', JStr ''c''],
      pointer = 2, capacity = 3\<rparr>"
    by (simp add: eval_simps)
  from capacity_invariant [OF h, of "[Commit (Plain (JStr ''b'')), Commit (Plain (JStr ''c''))]"]
  have "int (length (history \<lparr>value_state = JStr ''c'',
      history = [JStr ''a'', JStr ''b'', JStr ''c''], pointer = 2, capacity = 3\<rparr>)) \<le> 3"
    unfolding e by simp
  then show ?thesis using h unfolding e by (simp add: eval_simps)
qed

text \<open>
  Claim C5: from a container created with capacity at least 1, every sequence of calls
  returns in a state whose log is not empty and whose cursor is an index of the log, so
  that reading the log at the cursor reads an entry.
\<close>

theorem cursor_validity:
  assumes "1 \<le> capacity (useStateWithHistory d opts)"
  shows "\<exists>s. run ops (useStateWithHistory d opts) = Some s \<and>
     history s \<noteq> [] \<and> 0 \<le> pointer s \<and> pointer s < int (length (history s)) \<and>
     js_index (history s) (pointer s) = history s ! nat (pointer s)"
proof -
  from run_valid [OF init_valid [OF assms] assms, of ops] obtain s
    where "run ops (useStateWithHistory d opts) = Some s" "valid s" by blast
  then show ?thesis by (auto simp: valid_def js_index_def)
qed

theorem cursor_validity_witness:
  "1 \<le> capacity (useStateWithHistory (JNum 0) None) \<and>
   (\<exists>s. run [Commit (Plain (JNum 1)), Back, Back, GoTo 7, Forward, Forward]
          (useStateWithHistory (JNum 0) None) = Some s \<and>
        history s = [JNum 0, JNum 1] \<and> pointer s = 1 \<and>
        0 \<le> pointer s \<and> pointer s < int (length (history s)))"
proof -
  have h: "1 \<le> capacity (useStateWithHistory (JNum 0) None)"
    by (simp add: useStateWithHistory_def)
  have e: "run [Commit (Plain (JNum 1)), Back, Back, GoTo 7, Forward, Forward]
      (useStateWithHistory (JNum 0) None) =
    Some \<lparr>value_state = JNum 1, history = [JNum 0, JNum 1], pointer = 1, capacity = 10\<rparr>"
    by (simp add: eval_simps)
  from cursor_validity [OF h, of "[Commit (Plain (JNum 1)), Back, Back, GoTo 7, Forward, Forward]"]
  have "0 \<le> pointer \<lparr>value_state = JNum 1, history = [JNum 0, JNum 1], pointer = 1, capacity = 10\<rparr>"
    unfolding e by simp
  then show ?thesis using h unfolding e by simp
qed

section \<open>The end-to-end scenario\<close>

text \<open>
  Claim C3, as the specification has it: after \<open>create(0, capacity 3)\<close>, commits of 1, 2, 3,
  one \<^verbatim>\<open>back\<close> and a commit of 9, the log is \<open>[1, 9]\<close> with cursor 1. The hook cuts the
  log after the cursor, which stands on the entry 2: the log is \<open>[1, 2, 9]\<close>, the cursor 2.
\<close>

theorem scenario_counterexample:
  "map_option history
     (run [Commit (Plain (JNum 1)), Commit (Plain (JNum 2)), Commit (Plain (JNum 3)), Back,
           Commit (Plain (JNum 9))]
        (useStateWithHistory (JNum 0) (Some 3))) = Some [JNum 1, JNum 2, JNum 9] \<and>
   map_option pointer
     (run [Commit (Plain (JNum 1)), Commit (Plain (JNum 2)), Commit (Plain (JNum 3)), Back,
           Commit (Plain (JNum 9))]
        (useStateWithHistory (JNum 0) (Some 3))) = Some 2"
  by (simp add: eval_simps)

text \<open>
  Claim C3, amended: the three commits yield log \<open>[1, 2, 3]\<close> with cursor 2 (the initial 0
  evicted); \<^verbatim>\<open>back\<close> makes the visible value 2 with cursor 1; the commit of 9 yields log
  \<open>[1, 2, 9]\<close> with cursor 2; \<^verbatim>\<open>forward\<close> then changes nothing.
\<close>

theorem scenario:
  "run [Commit (Plain (JNum 1)), Commit (Plain (JNum 2)), Commit (Plain (JNum 3))]
     (useStateWithHistory (JNum 0) (Some 3)) =
     Some \<lparr>value_state = JNum 3, history = [JNum 1, JNum 2, JNum 3], pointer = 2, capacity = 3\<rparr> \<and>
   run [Commit (Plain (JNum 1)), Commit (Plain (JNum 2)), Commit (Plain (JNum 3)), Back]
     (useStateWithHistory (JNum 0) (Some 3)) =
     Some \<lparr>value_state = JNum 2, history = [JNum 1, JNum 2, JNum 3], pointer = 1, capacity = 3\<rparr> \<and>
   run [Commit (Plain (JNum 1)), Commit (Plain (JNum 2)), Commit (Plain (JNum 3)), Back,
        Commit (Plain (JNum 9))]
     (useStateWithHistory (JNum 0) (Some 3)) =
     Some \<lparr>value_state = JNum 9, history = [JNum 1, JNum 2, JNum 9], pointer = 2, capacity = 3\<rparr> \<and>
   run [Commit (Plain (JNum 1)), Commit (Plain (JNum 2)), Commit (Plain (JNum 3)), Back,
        Commit (Plain (JNum 9)), Forward]
     (useStateWithHistory (JNum 0) (Some 3)) =
     Some \<lparr>value_state = JNum 9, history = [JNum 1, JNum 2, JNum 9], pointer = 2, capacity = 3\<rparr>"
  by (simp add: eval_simps)

end
